theory Spec2Isabelle
  imports Main "HOL-Library.Sublist"
begin

section \<open>Strings, errors and the host environment\<close>

text \<open>
  The module \<^verbatim>\<open>utilityHelperFunctions.ts\<close> is modelled function by function.
  A JavaScript string is a \<^typ>\<open>string\<close>; one \<^typ>\<open>char\<close> stands for one code unit
  below 256. Calls of \<^verbatim>\<open>core.debug\<close> only write a log and are left out.
  The libraries the module calls (\<^verbatim>\<open>minimatch\<close>, \<^verbatim>\<open>path\<close>, \<^verbatim>\<open>fs\<close>) and
  \<^verbatim>\<open>process.platform\<close> are parameters of the model.
\<close>

text \<open>An \<^verbatim>\<open>Error\<close> object: its name, its message and the \<^verbatim>\<open>code\<close> and \<^verbatim>\<open>path\<close>
  properties that the errors of \<^verbatim>\<open>fs\<close> carry.\<close>

datatype js_error =
  JsError (err_name: string) (err_message: string) (err_code: "string option") (err_path: "string option")

definition new_Error :: "string \<Rightarrow> js_error" where
  "new_Error msg = JsError ''Error'' msg None None"

definition new_TypeError :: "string \<Rightarrow> js_error" where
  "new_TypeError msg = JsError ''TypeError'' msg None None"

abbreviation backslash :: char where
  "backslash \<equiv> CHR 0x5C"

text \<open>\<^verbatim>\<open>String.prototype.trim\<close> on code units below 256: tab, the line terminators,
  space and no-break space are stripped from both ends.\<close>

definition js_whitespace :: "char \<Rightarrow> bool" where
  "js_whitespace c = (of_char c \<in> {9, 10, 11, 12, 13, 32, 160 :: nat})"

definition js_trim :: "string \<Rightarrow> string" where
  "js_trim s = rev (dropWhile js_whitespace (rev (dropWhile js_whitespace s)))"

text \<open>\<^verbatim>\<open>str.replace(/c/g, d)\<close> for single characters, and
  \<^verbatim>\<open>str.replace(/cc+/g, c)\<close>, which shrinks every run of two or more \<^verbatim>\<open>c\<close> to one.\<close>

definition replace_char :: "char \<Rightarrow> char \<Rightarrow> string \<Rightarrow> string" where
  "replace_char c d s = map (\<lambda>x. if x = c then d else x) s"

fun collapse_runs :: "char \<Rightarrow> string \<Rightarrow> string" where
  "collapse_runs c [] = []"
| "collapse_runs c [x] = [x]"
| "collapse_runs c (x # y # zs) =
     (if x = c \<and> y = c then collapse_runs c (y # zs) else x # collapse_runs c (y # zs))"

definition ascii_letter :: "char \<Rightarrow> bool" where
  "ascii_letter c = (let n = (of_char c :: nat) in (65 \<le> n \<and> n \<le> 90) \<or> (97 \<le> n \<and> n \<le> 122))"

text \<open>The regular expressions \<^verbatim>\<open>/^[A-Z]:/i\<close>, \<^verbatim>\<open>/^[A-Z]:$/i\<close> and \<^verbatim>\<open>/^\\\\+[^\\]/\<close>.\<close>

definition drive_prefix :: "string \<Rightarrow> bool" where
  "drive_prefix p = (case p of a # b # _ \<Rightarrow> ascii_letter a \<and> b = CHR '':'' | _ \<Rightarrow> False)"

definition bare_drive :: "string \<Rightarrow> bool" where
  "bare_drive p = (case p of [a, b] \<Rightarrow> ascii_letter a \<and> b = CHR '':'' | _ \<Rightarrow> False)"

definition unc_prefix :: "string \<Rightarrow> bool" where
  "unc_prefix p = (let n = length (takeWhile (\<lambda>x. x = backslash) p) in 2 \<le> n \<and> n < length p)"

definition startsWith :: "string \<Rightarrow> string \<Rightarrow> bool" where
  "startsWith str start = (take (length start) str = start)"

definition endsWith :: "string \<Rightarrow> string \<Rightarrow> bool" where
  "endsWith str e = ((if e = [] then str else drop (length str - length e) str) = e)"

text \<open>What \<^verbatim>\<open>lstatSync\<close> reports of a path: the file type bits of its mode.
  \<^verbatim>\<open>isDirectory()\<close> holds for a directory only, not for a link to one.\<close>

datatype file_type = RegularFile | Directory | SymbolicLink | OtherFile

definition isDirectory :: "file_type \<Rightarrow> bool" where
  "isDirectory st = (st = Directory)"

record MatchOptions =
  debug :: bool
  nobrace :: bool
  noglobstar :: bool
  dot :: bool
  noext :: bool
  nocase :: bool
  nonull :: bool
  matchBase :: bool
  nocomment :: bool
  nonegate :: bool
  flipNegate :: bool

text \<open>The host: the platform, and the functions of \<^verbatim>\<open>minimatch\<close> and \<^verbatim>\<open>path\<close>
  that the module calls.\<close>

record host =
  win32 :: bool
  minimatch_match :: "string list \<Rightarrow> string \<Rightarrow> MatchOptions \<Rightarrow> string list"
  minimatch_braceExpand :: "string \<Rightarrow> string list"
  path_normalize :: "string \<Rightarrow> string"
  path_join :: "string \<Rightarrow> string \<Rightarrow> string"

text \<open>The file system as \<^verbatim>\<open>fs\<close> shows it: \<^verbatim>\<open>lstatSync\<close> looks at a link itself,
  \<^verbatim>\<open>statSync\<close> at what it points to, \<^verbatim>\<open>readdirSync\<close> lists the names in a directory.
  Each call returns or throws.\<close>

record filesystem =
  lstatSync :: "string \<Rightarrow> js_error + file_type"
  statSync :: "string \<Rightarrow> js_error + file_type"
  readdirSync :: "string \<Rightarrow> js_error + string list"

definition path_sep :: "bool \<Rightarrow> char" where
  "path_sep w = (if w then backslash else CHR ''/'')"

section \<open>Rooting helpers\<close>

definition normalizeSeparators :: "bool \<Rightarrow> string \<Rightarrow> string" where
  "normalizeSeparators w p0 =
     (if w then
        (let p = replace_char CHR ''/'' backslash p0;
             isUnc = unc_prefix p
         in (if isUnc then [backslash] else []) @ collapse_runs backslash p)
      else collapse_runs CHR ''/'' p0)"

definition isRooted :: "bool \<Rightarrow> string \<Rightarrow> js_error + bool" where
  \<open>isRooted w p0 =
     (let p = normalizeSeparators w p0 in
      if p = [] then Inl (new_Error ''isRooted() parameter "p" cannot be empty'')
      else if w then Inr (startsWith p [backslash] \<or> drive_prefix p)
      else Inr (startsWith p ''/''))\<close>

definition ensureRooted :: "bool \<Rightarrow> string \<Rightarrow> string \<Rightarrow> js_error + string" where
  \<open>ensureRooted w root p =
     (if root = [] then Inl (new_Error ''ensureRooted() parameter "root" cannot be empty'')
      else if p = [] then Inl (new_Error ''ensureRooted() parameter "p" cannot be empty'')
      else (case isRooted w p of
              Inl e \<Rightarrow> Inl e
            | Inr rooted \<Rightarrow>
                if rooted then Inr p
                else if w \<and> bare_drive root then Inr (root @ p)
                else if endsWith root ''/'' \<or> (w \<and> endsWith root [backslash]) then Inr (root @ p)
                else Inr ((root @ [path_sep w]) @ p)))\<close>

section \<open>Pattern filter\<close>

definition getDefaultMatchOptions :: "bool \<Rightarrow> MatchOptions" where
  "getDefaultMatchOptions w =
     \<lparr> debug = False, nobrace = True, noglobstar = False, dot = True, noext = False,
       nocase = w, nonull = False, matchBase = False, nocomment = False,
       nonegate = False, flipNegate = False \<rparr>"

definition cloneMatchOptions :: "MatchOptions \<Rightarrow> MatchOptions" where
  "cloneMatchOptions matchOptions =
     \<lparr> debug = debug matchOptions, nobrace = nobrace matchOptions,
       noglobstar = noglobstar matchOptions, dot = dot matchOptions,
       noext = noext matchOptions, nocase = nocase matchOptions,
       nonull = nonull matchOptions, matchBase = matchBase matchOptions,
       nocomment = nocomment matchOptions, nonegate = nonegate matchOptions,
       flipNegate = flipNegate matchOptions \<rparr>"

text \<open>The loop \<^verbatim>\<open>while (pattern.charAt(negateCount) == '!') negateCount++\<close>.\<close>

fun negate_count :: "string \<Rightarrow> nat" where
  "negate_count [] = 0"
| "negate_count (c # cs) = (if c = CHR ''!'' then Suc (negate_count cs) else 0)"

text \<open>Lines 258 to 268: the count of leading \<^verbatim>\<open>!\<close> and the pattern without them.\<close>

definition strip_negation :: "MatchOptions \<Rightarrow> string \<Rightarrow> nat \<times> string" where
  "strip_negation options pattern =
     (if \<not> nonegate options
      then (negate_count pattern, drop (negate_count pattern) pattern)
      else (0, pattern))"

text \<open>Lines 270 to 272.\<close>

definition isIncludePattern :: "nat \<Rightarrow> MatchOptions \<Rightarrow> bool" where
  "isIncludePattern negateCount options =
     (negateCount = 0 \<or>
      (negateCount mod 2 = 0 \<and> \<not> flipNegate options) \<or>
      (negateCount mod 2 = 1 \<and> flipNegate options))"

text \<open>Lines 308 to 315: the pattern that is handed to \<^verbatim>\<open>minimatch\<close>. The test
  \<^verbatim>\<open>patternRoot &&\<close> fails for a missing and for an empty root.\<close>

definition root_pattern :: "bool \<Rightarrow> string option \<Rightarrow> MatchOptions \<Rightarrow> string \<Rightarrow> js_error + string" where
  "root_pattern w patternRoot options pattern =
     (case patternRoot of
        None \<Rightarrow> Inr pattern
      | Some root \<Rightarrow>
          if root = [] then Inr pattern
          else (case isRooted w pattern of
                  Inl e \<Rightarrow> Inl e
                | Inr rooted \<Rightarrow>
                    if \<not> rooted \<and>
                       (\<not> matchBase options \<or>
                        CHR ''/'' \<in> set (if w then replace_char backslash CHR ''/'' pattern else pattern))
                    then ensureRooted w root pattern
                    else Inr pattern))"

text \<open>
  The hashtable \<^verbatim>\<open>map\<close> is a plain object \<^verbatim>\<open>{}\<close>. The model keeps its own properties.
  An object made by \<^verbatim>\<open>{}\<close> inherits from \<^verbatim>\<open>Object.prototype\<close>, and two keys show it:
  the assignment \<^verbatim>\<open>map["__proto__"] = true\<close> runs the inherited setter, which ignores a
  value that is not an object, so no own property appears; and once
  \<^verbatim>\<open>map["hasOwnProperty"] = true\<close> has run, \<^verbatim>\<open>map.hasOwnProperty(item)\<close> calls
  \<^verbatim>\<open>true\<close> and throws a TypeError.
\<close>

type_synonym js_object = "string \<rightharpoonup> bool"

definition obj_set :: "js_object \<Rightarrow> string \<Rightarrow> bool \<Rightarrow> js_object" where
  "obj_set m k v = (if k = ''__proto__'' then m else m(k \<mapsto> v))"

definition obj_delete :: "js_object \<Rightarrow> string \<Rightarrow> js_object" where
  "obj_delete m k = m(k := None)"

definition call_hasOwnProperty :: "js_object \<Rightarrow> string \<Rightarrow> js_error + bool" where
  "call_hasOwnProperty m item =
     (if m ''hasOwnProperty'' \<noteq> None
      then Inl (new_TypeError ''map.hasOwnProperty is not a function'')
      else Inr (m item \<noteq> None))"

text \<open>Lines 324 to 326 and 335 to 337.\<close>

fun union_results :: "js_object \<Rightarrow> string list \<Rightarrow> js_object" where
  "union_results m [] = m"
| "union_results m (matchResult # rest) = union_results (obj_set m matchResult True) rest"

fun subtract_results :: "js_object \<Rightarrow> string list \<Rightarrow> js_object" where
  "subtract_results m [] = m"
| "subtract_results m (matchResult # rest) = subtract_results (obj_delete m matchResult) rest"

text \<open>Lines 295 to 339: the loop over the expanded patterns.\<close>

fun expanded_loop ::
  "host \<Rightarrow> string list \<Rightarrow> string option \<Rightarrow> bool \<Rightarrow> MatchOptions \<Rightarrow> js_object \<Rightarrow> string list
   \<Rightarrow> js_error + js_object" where
  "expanded_loop h list patternRoot isInclude options m [] = Inr m"
| "expanded_loop h list patternRoot isInclude options m (p0 # rest) =
     (let pattern = js_trim p0 in
      if pattern = [] then expanded_loop h list patternRoot isInclude options m rest
      else (case root_pattern (win32 h) patternRoot options pattern of
              Inl e \<Rightarrow> Inl e
            | Inr rooted \<Rightarrow>
                (let matchResults = minimatch_match h list rooted options in
                 expanded_loop h list patternRoot isInclude options
                   (if isInclude then union_results m matchResults
                    else subtract_results m matchResults) rest)))"

text \<open>Lines 236 to 293: what one pattern of the outer loop does up to the inner loop.
  \<^verbatim>\<open>None\<close> is \<^verbatim>\<open>continue\<close>; otherwise the kind of the pattern, the options as they
  stand before the inner loop, and the expanded patterns.\<close>

definition prepare_pattern :: "host \<Rightarrow> MatchOptions \<Rightarrow> string \<Rightarrow> (bool \<times> MatchOptions \<times> string list) option" where
  "prepare_pattern h originalOptions p0 =
     (let pattern = js_trim p0 in
      if pattern = [] then None
      else
        (let options = cloneMatchOptions originalOptions in
         if \<not> nocomment options \<and> startsWith pattern ''#'' then None
         else
           (let options = options\<lparr>nocomment := True\<rparr>;
                (negateCount, pattern) = strip_negation options pattern;
                isInclude = isIncludePattern negateCount options;
                options = options\<lparr>nonegate := True, flipNegate := False\<rparr>;
                expanded =
                  (if nobrace options then [pattern]
                   else minimatch_braceExpand h
                          (if win32 h then replace_char backslash CHR ''/'' pattern else pattern));
                options = options\<lparr>nobrace := True\<rparr>
            in Some (isInclude, options, expanded))))"

fun pattern_loop ::
  "host \<Rightarrow> string list \<Rightarrow> string option \<Rightarrow> MatchOptions \<Rightarrow> js_object \<Rightarrow> string list
   \<Rightarrow> js_error + js_object" where
  "pattern_loop h list patternRoot originalOptions m [] = Inr m"
| "pattern_loop h list patternRoot originalOptions m (p0 # rest) =
     (case prepare_pattern h originalOptions p0 of
        None \<Rightarrow> pattern_loop h list patternRoot originalOptions m rest
      | Some (isInclude, options, expanded) \<Rightarrow>
          (case expanded_loop h list patternRoot isInclude options m expanded of
             Inl e \<Rightarrow> Inl e
           | Inr m' \<Rightarrow> pattern_loop h list patternRoot originalOptions m' rest))"

text \<open>Line 343: \<^verbatim>\<open>list.filter((item) => map.hasOwnProperty(item))\<close>.\<close>

fun filter_hasOwnProperty :: "js_object \<Rightarrow> string list \<Rightarrow> js_error + string list" where
  "filter_hasOwnProperty m [] = Inr []"
| "filter_hasOwnProperty m (item # rest) =
     (case call_hasOwnProperty m item of
        Inl e \<Rightarrow> Inl e
      | Inr keep \<Rightarrow>
          (case filter_hasOwnProperty m rest of
             Inl e \<Rightarrow> Inl e
           | Inr kept \<Rightarrow> Inr (if keep then item # kept else kept)))"

text \<open>The parameter \<^verbatim>\<open>patterns: string[] | string\<close>.\<close>

datatype patterns_arg = OnePattern string | Patterns "string list"

definition patterns_array :: "patterns_arg \<Rightarrow> string list" where
  "patterns_array ps = (case ps of OnePattern s \<Rightarrow> [s] | Patterns l \<Rightarrow> l)"

definition match_map ::
  "host \<Rightarrow> string list \<Rightarrow> patterns_arg \<Rightarrow> string option \<Rightarrow> MatchOptions option \<Rightarrow> js_error + js_object" where
  "match_map h list patterns patternRoot options =
     pattern_loop h list patternRoot
       (case options of None \<Rightarrow> getDefaultMatchOptions (win32 h) | Some given \<Rightarrow> given)
       Map.empty (patterns_array patterns)"

definition match ::
  "host \<Rightarrow> string list \<Rightarrow> patterns_arg \<Rightarrow> string option \<Rightarrow> MatchOptions option \<Rightarrow> js_error + string list" where
  "match h list patterns patternRoot options =
     (case match_map h list patterns patternRoot options of
        Inl e \<Rightarrow> Inl e
      | Inr m \<Rightarrow> filter_hasOwnProperty m list)"

section \<open>Tree walker\<close>

datatype FindItem = FindItem (path: string) (level: nat)

text \<open>Lines 149 to 151: \<^verbatim>\<open>for (var i = childItems.length - 1; i >= 0; i--) stack.push(childItems[i])\<close>;
  the third argument is \<^verbatim>\<open>i + 1\<close>. The stack is the array: its top is its last element.\<close>

fun push_children :: "FindItem list \<Rightarrow> FindItem list \<Rightarrow> nat \<Rightarrow> FindItem list" where
  "push_children stack childItems 0 = stack"
| "push_children stack childItems (Suc i) = push_children (stack @ [childItems ! i]) childItems i"

text \<open>Lines 127 to 156: the loop \<^verbatim>\<open>while (stack.length)\<close>. A walk that never ends is
  \<^verbatim>\<open>None\<close>; an error thrown by \<^verbatim>\<open>fs\<close> leaves the loop.\<close>

partial_function (option) find_loop ::
  "host \<Rightarrow> filesystem \<Rightarrow> FindItem list \<Rightarrow> string list \<Rightarrow> (js_error + string list) option" where
  "find_loop h fs stack result =
     (if stack = [] then Some (Inr result)
      else
        (case lstatSync fs (path (last stack)) of
           Inl err \<Rightarrow> Some (Inl err)
         | Inr stats \<Rightarrow>
             if isDirectory stats then
               (case readdirSync fs (path (last stack)) of
                  Inl err \<Rightarrow> Some (Inl err)
                | Inr names \<Rightarrow>
                    find_loop h fs
                      (push_children (butlast stack)
                         (map (\<lambda>childName.
                                 FindItem (path_join h (path (last stack)) childName)
                                          (level (last stack) + 1)) names)
                         (length names))
                      (result @ [path (last stack)]))
             else find_loop h fs (butlast stack) (result @ [path (last stack)])))"

text \<open>Lines 94 to 164. The first \<^verbatim>\<open>lstatSync\<close> is outside the \<^verbatim>\<open>try\<close> block that wraps
  the errors of the loop.\<close>

definition find_js :: "host \<Rightarrow> filesystem \<Rightarrow> string \<Rightarrow> (js_error + string list) option" where
  "find_js h fs findPath0 =
     (if findPath0 = [] then Some (Inr [])
      else
        (let findPath = path_normalize h findPath0 in
         case lstatSync fs findPath of
           Inl err \<Rightarrow> if err_code err = Some ''ENOENT'' then Some (Inr []) else Some (Inl err)
         | Inr _ \<Rightarrow>
             (case find_loop h fs [FindItem findPath 1] [] of
                None \<Rightarrow> None
              | Some (Inl err) \<Rightarrow> Some (Inl (new_Error (''Failed find: '' @ err_message err)))
              | Some (Inr result) \<Rightarrow> Some (Inr result))))"

subsection \<open>Directory trees\<close>

text \<open>A finite directory tree: a file, a symbolic link, a directory with its entries in
  the order in which \<^verbatim>\<open>readdirSync\<close> lists them, or a node of another kind (a FIFO, a
  socket, a device).\<close>

datatype fs_tree = FileNode | LinkNode | DirNode "(string \<times> fs_tree) list" | OtherNode

text \<open>The file system shows the tree \<open>t\<close> at the path \<open>p\<close>.\<close>

fun tree_at :: "host \<Rightarrow> filesystem \<Rightarrow> string \<Rightarrow> fs_tree \<Rightarrow> bool" where
  "tree_at h fs p FileNode = (lstatSync fs p = Inr RegularFile)"
| "tree_at h fs p LinkNode = (lstatSync fs p = Inr SymbolicLink)"
| "tree_at h fs p (DirNode entries) =
     (lstatSync fs p = Inr Directory \<and> readdirSync fs p = Inr (map fst entries) \<and>
      list_all (\<lambda>entry. tree_at h fs (path_join h p (fst entry)) (snd entry)) entries)"
| "tree_at h fs p OtherNode = (lstatSync fs p = Inr OtherFile)"

text \<open>The walk the specification describes: a path comes before everything below it, and
  the entries of a directory come in listing order, each followed by its own subtree.\<close>

fun preorder :: "host \<Rightarrow> string \<Rightarrow> fs_tree \<Rightarrow> string list" where
  "preorder h p FileNode = [p]"
| "preorder h p LinkNode = [p]"
| "preorder h p (DirNode entries) =
     p # concat (map (\<lambda>entry. preorder h (path_join h p (fst entry)) (snd entry)) entries)"
| "preorder h p OtherNode = [p]"

fun tree_size :: "fs_tree \<Rightarrow> nat" where
  "tree_size FileNode = 1"
| "tree_size LinkNode = 1"
| "tree_size (DirNode entries) = Suc (sum_list (map (\<lambda>entry. tree_size (snd entry)) entries))"
| "tree_size OtherNode = 1"

text \<open>The names as \<^verbatim>\<open>readdirSync\<close> lists them: no name holds a slash, and no name occurs
  twice in one directory.\<close>

fun well_named :: "fs_tree \<Rightarrow> bool" where
  "well_named FileNode = True"
| "well_named LinkNode = True"
| "well_named (DirNode entries) =
     (distinct (map fst entries) \<and>
      list_all (\<lambda>entry. CHR ''/'' \<notin> set (fst entry) \<and> well_named (snd entry)) entries)"
| "well_named OtherNode = True"

section \<open>Example hosts and file systems\<close>

text \<open>A glob engine for the examples: a pattern without glob characters selects the paths
  equal to it, which is what \<^verbatim>\<open>minimatch.match\<close> returns for such a pattern.\<close>

definition literal_match :: "string list \<Rightarrow> string \<Rightarrow> MatchOptions \<Rightarrow> string list" where
  "literal_match list pattern options = filter (\<lambda>f. f = pattern) list"

definition posix_host :: host where
  "posix_host =
     \<lparr> win32 = False, minimatch_match = literal_match,
       minimatch_braceExpand = (\<lambda>p. [p]),
       path_normalize = (\<lambda>p. p),
       path_join = (\<lambda>a b. a @ ''/'' @ b) \<rparr>"

text \<open>An error as \<^verbatim>\<open>fs\<close> throws it. Its message reads
  \<^verbatim>\<open>ENOENT: no such file or directory, lstat 'root/x'\<close>: the code, the description, the
  system call and the path in single quotes.\<close>

definition fs_error :: "string \<Rightarrow> string \<Rightarrow> string \<Rightarrow> string \<Rightarrow> js_error" where
  "fs_error code description syscall p =
     JsError ''Error''
       (code @ '': '' @ description @ '', '' @ syscall @ '' '' @ [CHR 0x27] @ p @ [CHR 0x27])
       (Some code) (Some p)"

definition enoent :: "string \<Rightarrow> string \<Rightarrow> js_error" where
  "enoent syscall p = fs_error ''ENOENT'' ''no such file or directory'' syscall p"

definition eacces :: "string \<Rightarrow> string \<Rightarrow> js_error" where
  "eacces syscall p = fs_error ''EACCES'' ''permission denied'' syscall p"

text \<open>The tree \<^verbatim>\<open>root/{sub/{f3.txt}, f1.txt, f2.log, lnk -> sub}\<close>.\<close>

definition example_fs :: filesystem where
  "example_fs =
     \<lparr> lstatSync = (\<lambda>p.
         if p = ''root'' \<or> p = ''root/sub'' then Inr Directory
         else if p = ''root/sub/f3.txt'' \<or> p = ''root/f1.txt'' \<or> p = ''root/f2.log'' then Inr RegularFile
         else if p = ''root/lnk'' then Inr SymbolicLink
         else Inl (enoent ''lstat'' p)),
       statSync = (\<lambda>p.
         if p = ''root'' \<or> p = ''root/sub'' \<or> p = ''root/lnk'' then Inr Directory
         else if p = ''root/sub/f3.txt'' \<or> p = ''root/f1.txt'' \<or> p = ''root/f2.log'' then Inr RegularFile
         else Inl (enoent ''stat'' p)),
       readdirSync = (\<lambda>p.
         if p = ''root'' then Inr [''sub'', ''f1.txt'', ''f2.log'', ''lnk'']
         else if p = ''root/sub'' \<or> p = ''root/lnk'' then Inr [''f3.txt'']
         else Inl (enoent ''scandir'' p)) \<rparr>"

definition example_tree :: fs_tree where
  "example_tree =
     DirNode [(''sub'', DirNode [(''f3.txt'', FileNode)]), (''f1.txt'', FileNode),
              (''f2.log'', FileNode), (''lnk'', LinkNode)]"

text \<open>The same tree where reading through the link fails and \<^verbatim>\<open>statSync\<close> always fails.\<close>

definition example_fs_closed :: filesystem where
  "example_fs_closed =
     \<lparr> lstatSync = lstatSync example_fs,
       statSync = (\<lambda>p. Inl (eacces ''stat'' p)),
       readdirSync = (\<lambda>p. if p = ''root/lnk'' then Inl (eacces ''scandir'' p)
                          else readdirSync example_fs p) \<rparr>"

text \<open>The tree \<^verbatim>\<open>root/{a, locked/}\<close>, where the directory \<^verbatim>\<open>locked\<close> cannot be listed.\<close>

definition locked_fs :: filesystem where
  "locked_fs =
     \<lparr> lstatSync = (\<lambda>p.
         if p = ''root'' \<or> p = ''root/locked'' then Inr Directory
         else if p = ''root/a'' then Inr RegularFile
         else Inl (enoent ''lstat'' p)),
       statSync = (\<lambda>p.
         if p = ''root'' \<or> p = ''root/locked'' then Inr Directory
         else if p = ''root/a'' then Inr RegularFile
         else Inl (enoent ''stat'' p)),
       readdirSync = (\<lambda>p.
         if p = ''root'' then Inr [''a'', ''locked'']
         else if p = ''root/locked'' then Inl (eacces ''scandir'' p)
         else Inl (enoent ''scandir'' p)) \<rparr>"

text \<open>An empty file system: nothing exists.\<close>

definition empty_fs :: filesystem where
  "empty_fs =
     \<lparr> lstatSync = (\<lambda>p. Inl (enoent ''lstat'' p)),
       statSync = (\<lambda>p. Inl (enoent ''stat'' p)),
       readdirSync = (\<lambda>p. Inl (enoent ''scandir'' p)) \<rparr>"

text \<open>The default options of the POSIX platform with \<^verbatim>\<open>flipNegate\<close> switched on.\<close>

definition flipped_options :: MatchOptions where
  "flipped_options = (getDefaultMatchOptions False)\<lparr>flipNegate := True\<rparr>"

section \<open>The filter as a list of steps\<close>

text \<open>
  For the proofs the two nested loops are unrolled into the list of their steps: one step for
  every expanded sub-pattern that is not empty, with the kind of its pattern (include or
  exclude), the options handed to \<^verbatim>\<open>minimatch\<close>, and the rooted sub-pattern. Neither the
  path list nor the hashtable takes part in it.
\<close>

definition plan_pattern ::
  "host \<Rightarrow> string option \<Rightarrow> MatchOptions \<Rightarrow> string \<Rightarrow> (bool \<times> MatchOptions \<times> string) list" where
  "plan_pattern h patternRoot originalOptions p0 =
     (case prepare_pattern h originalOptions p0 of
        None \<Rightarrow> []
      | Some (isInclude, options, expanded) \<Rightarrow>
          map (\<lambda>q. (isInclude, options,
                     case root_pattern (win32 h) patternRoot options q of Inl e \<Rightarrow> q | Inr rooted \<Rightarrow> rooted))
              (filter (\<lambda>q. q \<noteq> []) (map js_trim expanded)))"

definition match_plan ::
  "host \<Rightarrow> string option \<Rightarrow> MatchOptions \<Rightarrow> string list \<Rightarrow> (bool \<times> MatchOptions \<times> string) list" where
  "match_plan h patternRoot originalOptions ps = concat (map (plan_pattern h patternRoot originalOptions) ps)"

text \<open>One step on the hashtable: the matches are looked for in the path list that is passed in.\<close>

definition apply_step :: "host \<Rightarrow> string list \<Rightarrow> js_object \<Rightarrow> bool \<times> MatchOptions \<times> string \<Rightarrow> js_object" where
  "apply_step h list m step =
     (case step of (isInclude, options, pattern) \<Rightarrow>
        if isInclude then union_results m (minimatch_match h list pattern options)
        else subtract_results m (minimatch_match h list pattern options))"

text \<open>An error names a path when it has the path as its \<^verbatim>\<open>path\<close> property or within
  the text of its message.\<close>

definition carries_path :: "js_error \<Rightarrow> string \<Rightarrow> bool" where
  "carries_path e p = (err_path e = Some p \<or> sublist p (err_message e))"

section \<open>The rooting rule in the words of the specification\<close>






section \<open>The steps of the walk\<close>

text \<open>One round of the loop of \<^verbatim>\<open>find\<close> on a stack that is not empty: the error that leaves
  the loop, or the stack and the result after the round.\<close>

definition find_step ::
  "host \<Rightarrow> filesystem \<Rightarrow> FindItem list \<Rightarrow> string list \<Rightarrow> js_error + (FindItem list \<times> string list)" where
  "find_step h fs stack result =
     (case lstatSync fs (path (last stack)) of
        Inl err \<Rightarrow> Inl err
      | Inr stats \<Rightarrow>
          if isDirectory stats then
            (case readdirSync fs (path (last stack)) of
               Inl err \<Rightarrow> Inl err
             | Inr names \<Rightarrow>
                 Inr (push_children (butlast stack)
                        (map (\<lambda>childName.
                                FindItem (path_join h (path (last stack)) childName)
                                         (level (last stack) + 1)) names)
                        (length names),
                      result @ [path (last stack)]))
          else Inr (butlast stack, result @ [path (last stack)]))"

text \<open>The states the loop comes to: the second state is the first after some rounds, none
  of which threw.\<close>

inductive walk_reaches ::
  "host \<Rightarrow> filesystem \<Rightarrow> FindItem list \<times> string list \<Rightarrow> FindItem list \<times> string list \<Rightarrow> bool" where
  here: "walk_reaches h fs s s"
| round: "stack \<noteq> [] \<Longrightarrow> find_step h fs stack result = Inr s' \<Longrightarrow> walk_reaches h fs s' s'' \<Longrightarrow>
          walk_reaches h fs (stack, result) s''"

section \<open>Properties of the rooting helpers\<close>

lemma collapse_runs_eq_Nil [simp]: "collapse_runs c s = [] \<longleftrightarrow> s = []"
  by (induction c s rule: collapse_runs.induct) auto

lemma normalizeSeparators_eq_Nil [simp]: "normalizeSeparators w p = [] \<longleftrightarrow> p = []"
  by (auto simp: normalizeSeparators_def replace_char_def Let_def unc_prefix_def)

lemma isRooted_Inr_nonempty: "isRooted w p = Inr b \<Longrightarrow> p \<noteq> []"
  by (auto simp: isRooted_def Let_def)

lemma isRooted_defined: "p \<noteq> [] \<Longrightarrow> \<exists>b. isRooted w p = Inr b"
  by (auto simp: isRooted_def Let_def)


lemma root_pattern_defined:
  "pattern \<noteq> [] \<Longrightarrow> \<exists>p. root_pattern w patternRoot options pattern = Inr p"
  using isRooted_defined [of pattern w]
  by (auto simp: root_pattern_def ensureRooted_def split: option.splits)

















section \<open>Properties of the pattern filter\<close>

lemma cloneMatchOptions_id [simp]: "cloneMatchOptions (options :: MatchOptions) = options"
  by (cases options) (simp add: cloneMatchOptions_def)

lemma union_results_lookup:
  "union_results m rs x = (if x \<in> set rs \<and> x \<noteq> ''__proto__'' then Some True else m x)"
  by (induction rs arbitrary: m) (auto simp: obj_set_def)

lemma subtract_results_lookup:
  "subtract_results m rs x = (if x \<in> set rs then None else m x)"
  by (induction rs arbitrary: m) (auto simp: obj_delete_def)

lemma dom_union_results: "dom (union_results m rs) = dom m \<union> (set rs - {''__proto__''})"
  by (auto simp: dom_def union_results_lookup)

lemma dom_subtract_results: "dom (subtract_results m rs) = dom m - set rs"
  by (auto simp: dom_def subtract_results_lookup)

lemma filter_hasOwnProperty_eq:
  "filter_hasOwnProperty m l =
     (if l \<noteq> [] \<and> m ''hasOwnProperty'' \<noteq> None
      then Inl (new_TypeError ''map.hasOwnProperty is not a function'')
      else Inr (filter (\<lambda>item. m item \<noteq> None) l))"
  by (induction l) (auto simp: call_hasOwnProperty_def)

lemma expanded_loop_defined:
  "\<exists>m'. expanded_loop h l r inc options m ex = Inr m'"
proof (induction ex arbitrary: m)
  case Nil
  show ?case by simp
next
  case (Cons p ex)
  show ?case
  proof (cases "js_trim p = []")
    case True
    then show ?thesis using Cons.IH [of m] by simp
  next
    case False
    then obtain q where q: "root_pattern (win32 h) r options (js_trim p) = Inr q"
      using root_pattern_defined by blast
    show ?thesis using False q Cons.IH by (simp add: Let_def)
  qed
qed

lemma pattern_loop_defined:
  "\<exists>m'. pattern_loop h l r options m ps = Inr m'"
proof (induction ps arbitrary: m)
  case Nil
  show ?case by simp
next
  case (Cons p ps)
  show ?case
  proof (cases "prepare_pattern h options p")
    case None
    then show ?thesis using Cons.IH [of m] by simp
  next
    case (Some t)
    obtain inc o' ex where t: "t = (inc, o', ex)" by (cases t)
    obtain m1 where m1: "expanded_loop h l r inc o' m ex = Inr m1"
      using expanded_loop_defined by blast
    show ?thesis using Some t m1 Cons.IH [of m1] by simp
  qed
qed

lemma expanded_loop_plan:
  "expanded_loop h l r inc options m ex =
     Inr (foldl (apply_step h l) m
            (map (\<lambda>q. (inc, options,
                     case root_pattern (win32 h) r options q of Inl e \<Rightarrow> q | Inr rooted \<Rightarrow> rooted))
              (filter (\<lambda>q. q \<noteq> []) (map js_trim ex))))"
proof (induction ex arbitrary: m)
  case Nil
  show ?case by simp
next
  case (Cons p ex)
  show ?case
  proof (cases "js_trim p = []")
    case True
    then show ?thesis using Cons.IH [of m] by simp
  next
    case False
    then obtain q where q: "root_pattern (win32 h) r options (js_trim p) = Inr q"
      using root_pattern_defined by blast
    show ?thesis using False q Cons.IH by (simp add: Let_def apply_step_def)
  qed
qed

lemma pattern_loop_plan:
  "pattern_loop h l r options m ps = Inr (foldl (apply_step h l) m (match_plan h r options ps))"
proof (induction ps arbitrary: m)
  case Nil
  show ?case by (simp add: match_plan_def)
next
  case (Cons p ps)
  show ?case
  proof (cases "prepare_pattern h options p")
    case None
    then show ?thesis using Cons.IH [of m] by (simp add: match_plan_def plan_pattern_def)
  next
    case (Some t)
    obtain inc o' ex where t: "t = (inc, o', ex)" by (cases t)
    show ?thesis using Some t Cons.IH
      by (simp add: match_plan_def plan_pattern_def expanded_loop_plan)
  qed
qed

text \<open>
  The loops over the patterns never throw, and they are the steps of the pattern list applied
  one after the other, each of them to the path list that \<^verbatim>\<open>match\<close> was called with. An
  include step adds its matches to the keys of the hashtable, all but \<^verbatim>\<open>__proto__\<close>; an
  exclude step removes its matches from the keys.
\<close>

theorem match_accumulates_against_original_list:
  "match_map h list patterns patternRoot options =
     Inr (foldl (apply_step h list) Map.empty
            (match_plan h patternRoot
               (case options of None \<Rightarrow> getDefaultMatchOptions (win32 h) | Some given \<Rightarrow> given)
               (patterns_array patterns))) \<and>
   dom (apply_step h list m (True, opt, pattern)) =
     dom m \<union> (set (minimatch_match h list pattern opt) - {''__proto__''}) \<and>
   dom (apply_step h list m (False, opt, pattern)) =
     dom m - set (minimatch_match h list pattern opt)"
  by (simp add: match_map_def pattern_loop_plan apply_step_def dom_union_results dom_subtract_results)

text \<open>
  The only error that \<^verbatim>\<open>match\<close> throws is the TypeError of the final filter, which needs a
  path list that is not empty.
\<close>

theorem match_throws_only_TypeError:
  "(\<exists>out. match h L P r opts = Inr out) \<or>
   (match h L P r opts = Inl (new_TypeError ''map.hasOwnProperty is not a function'') \<and> L \<noteq> [])"
proof -
  obtain m where "match_map h L P r opts = Inr m"
    unfolding match_map_def using pattern_loop_defined by blast
  then show ?thesis
    by (simp add: match_def filter_hasOwnProperty_eq)
qed

text \<open>
  C1. Every pattern is matched against the original path list; the matches of an include
  pattern are meant to join the accumulated set. With the path \<^verbatim>\<open>__proto__\<close> in the list
  and the include pattern \<^verbatim>\<open>__proto__\<close>, the pattern matches the path, the assignment
  \<^verbatim>\<open>map["__proto__"] = true\<close> stores nothing, and the result is empty. With the path
  \<^verbatim>\<open>hasOwnProperty\<close> the match is stored and the final filter throws.
\<close>

theorem match_proto_dropped:
  "minimatch_match posix_host [''__proto__''] ''__proto__'' (getDefaultMatchOptions False) = [''__proto__''] \<and>
   match posix_host [''__proto__''] (OnePattern ''__proto__'') None None = Inr [] \<and>
   match posix_host [''hasOwnProperty''] (OnePattern ''hasOwnProperty'') None None =
     Inl (new_TypeError ''map.hasOwnProperty is not a function'')"
  by (simp add: getDefaultMatchOptions_def prepare_pattern_def Let_def js_trim_def js_whitespace_def
        strip_negation_def isIncludePattern_def startsWith_def match_def match_map_def
        patterns_array_def posix_host_def literal_match_def root_pattern_def
        obj_set_def call_hasOwnProperty_def)

text \<open>
  C2. Whenever \<^verbatim>\<open>match\<close> returns, its output is a subsequence of the path list: it holds
  only paths of the list, in the order of the list, no path more often than the list does,
  and no path twice when the list has none twice.
\<close>

theorem match_subsequence:
  assumes "match h L P r opts = Inr out"
  shows "subseq out L \<and> set out \<subseteq> set L \<and> (\<forall>x. count_list out x \<le> count_list L x) \<and>
         (distinct L \<longrightarrow> distinct out)"
proof -
  from assms obtain m where "filter_hasOwnProperty m L = Inr out"
    by (auto simp: match_def split: sum.splits)
  then have out: "out = filter (\<lambda>item. m item \<noteq> None) L"
    by (simp add: filter_hasOwnProperty_eq split: if_splits)
  have "count_list out x \<le> count_list L x" for x
    unfolding out by (induction L) auto
  then show ?thesis
    unfolding out by simp

qed

theorem match_subsequence_witness:
  "match posix_host [''b'', ''a'', ''c''] (Patterns [''c'', '' a '', ''c'', ''!b'']) None None = Inr [''a'', ''c''] \<and>
   subseq [''a'', ''c''] [''b'', ''a'', ''c''] \<and> set [''a'', ''c''] \<subseteq> set [''b'', ''a'', ''c''] \<and>
   distinct [''b'', ''a'', ''c''] \<and> distinct [''a'', ''c'']"
proof -
  have m: "match posix_host [''b'', ''a'', ''c''] (Patterns [''c'', '' a '', ''c'', ''!b'']) None None = Inr [''a'', ''c'']"
    by (simp add: getDefaultMatchOptions_def prepare_pattern_def Let_def js_trim_def js_whitespace_def
        strip_negation_def isIncludePattern_def startsWith_def match_def match_map_def
        patterns_array_def posix_host_def literal_match_def root_pattern_def
        obj_set_def obj_delete_def call_hasOwnProperty_def)
  from match_subsequence [OF m] m show ?thesis by simp
qed

lemma prepare_pattern_nonull:
  "prepare_pattern h originalOptions p = Some (isInclude, options, expanded) \<Longrightarrow>
   nonull options = nonull originalOptions"
  by (auto simp: prepare_pattern_def Let_def split: if_splits prod.splits)

lemma expanded_loop_local:
  assumes H: "\<forall>l p opt. \<not> nonull opt \<longrightarrow> minimatch_match h l p opt = filter (accepts p opt) l"
    and N: "\<not> nonull options"
    and "expanded_loop h l1 r inc options m1 ex = Inr m1'"
    and "expanded_loop h l2 r inc options m2 ex = Inr m2'"
    and "m1 x = m2 x" and "x \<in> set l1 \<longleftrightarrow> x \<in> set l2"
  shows "m1' x = m2' x"
  using assms(3-)
proof (induction ex arbitrary: m1 m2)
  case Nil
  then show ?case by simp
next
  case (Cons p ex)
  show ?case
  proof (cases "js_trim p = []")
    case True
    with Cons show ?thesis by simp
  next
    case False
    then obtain q where q: "root_pattern (win32 h) r options (js_trim p) = Inr q"
      using root_pattern_defined by blast
    let ?n1 = "if inc then union_results m1 (minimatch_match h l1 q options)
               else subtract_results m1 (minimatch_match h l1 q options)"
    let ?n2 = "if inc then union_results m2 (minimatch_match h l2 q options)
               else subtract_results m2 (minimatch_match h l2 q options)"
    have e1: "expanded_loop h l1 r inc options ?n1 ex = Inr m1'"
      using Cons.prems(1) False q by (simp add: Let_def)
    have e2: "expanded_loop h l2 r inc options ?n2 ex = Inr m2'"
      using Cons.prems(2) False q by (simp add: Let_def)
    have "?n1 x = ?n2 x"
      using Cons.prems(3,4) H N by (auto simp: union_results_lookup subtract_results_lookup)
    from Cons.IH [OF e1 e2 this Cons.prems(4)] show ?thesis .
  qed
qed

lemma pattern_loop_local:
  assumes H: "\<forall>l p opt. \<not> nonull opt \<longrightarrow> minimatch_match h l p opt = filter (accepts p opt) l"
    and N: "\<not> nonull options"
    and "pattern_loop h l1 r options m1 ps = Inr m1'"
    and "pattern_loop h l2 r options m2 ps = Inr m2'"
    and "m1 x = m2 x" and "x \<in> set l1 \<longleftrightarrow> x \<in> set l2"
  shows "m1' x = m2' x"
  using assms(3-)
proof (induction ps arbitrary: m1 m2)
  case Nil
  then show ?case by simp
next
  case (Cons p ps)
  show ?case
  proof (cases "prepare_pattern h options p")
    case None
    with Cons show ?thesis by simp
  next
    case (Some t)
    obtain inc o' ex where t: "t = (inc, o', ex)" by (cases t)
    have N': "\<not> nonull o'"
      using prepare_pattern_nonull Some t N by blast
    obtain n1 where n1: "expanded_loop h l1 r inc o' m1 ex = Inr n1"
      using expanded_loop_defined by blast
    obtain n2 where n2: "expanded_loop h l2 r inc o' m2 ex = Inr n2"
      using expanded_loop_defined by blast
    have x: "n1 x = n2 x"
      using expanded_loop_local [OF H N' n1 n2 Cons.prems(3,4)] .
    have e1: "pattern_loop h l1 r options n1 ps = Inr m1'"
      using Cons.prems(1) Some t n1 by simp
    have e2: "pattern_loop h l2 r options n2 ps = Inr m2'"
      using Cons.prems(2) Some t n2 by simp
    from Cons.IH [OF e1 e2 x Cons.prems(4)] show ?thesis .
  qed
qed

lemma expanded_loop_dom:
  assumes H: "\<forall>l p opt. \<not> nonull opt \<longrightarrow> minimatch_match h l p opt = filter (accepts p opt) l"
    and N: "\<not> nonull options"
    and "expanded_loop h l r inc options m ex = Inr m'"
  shows "dom m' \<subseteq> dom m \<union> set l"
  using assms(3)
proof (induction ex arbitrary: m)
  case Nil
  then show ?case by auto
next
  case (Cons p ex)
  show ?case
  proof (cases "js_trim p = []")
    case True
    with Cons show ?thesis by simp
  next
    case False
    then obtain q where q: "root_pattern (win32 h) r options (js_trim p) = Inr q"
      using root_pattern_defined by blast
    let ?n = "if inc then union_results m (minimatch_match h l q options)
               else subtract_results m (minimatch_match h l q options)"
    have e: "expanded_loop h l r inc options ?n ex = Inr m'"
      using Cons.prems(1) False q by (simp add: Let_def)
    have "dom ?n \<subseteq> dom m \<union> set l"
      using H N by (auto simp: dom_def union_results_lookup subtract_results_lookup split: if_splits)
    with Cons.IH [OF e] show ?thesis by blast
  qed
qed

lemma pattern_loop_dom:
  assumes H: "\<forall>l p opt. \<not> nonull opt \<longrightarrow> minimatch_match h l p opt = filter (accepts p opt) l"
    and N: "\<not> nonull options"
    and "pattern_loop h l r options m ps = Inr m'"
  shows "dom m' \<subseteq> dom m \<union> set l"
  using assms(3)
proof (induction ps arbitrary: m)
  case Nil
  then show ?case by auto
next
  case (Cons p ps)
  show ?case
  proof (cases "prepare_pattern h options p")
    case None
    with Cons show ?thesis by simp
  next
    case (Some t)
    obtain inc o' ex where t: "t = (inc, o', ex)" by (cases t)
    have N': "\<not> nonull o'"
      using prepare_pattern_nonull Some t N by blast
    obtain n where n: "expanded_loop h l r inc o' m ex = Inr n"
      using expanded_loop_defined by blast
    have e: "pattern_loop h l r options n ps = Inr m'"
      using Cons.prems(1) Some t n by simp
    from Cons.IH [OF e] expanded_loop_dom [OF H N' n] show ?thesis by blast
  qed
qed

text \<open>
  C9. The glob engine decides every path on its own: with \<^verbatim>\<open>nonull\<close> off,
  \<^verbatim>\<open>minimatch.match(list, pattern, options)\<close> is \<^verbatim>\<open>list\<close> filtered by a test of the single
  path. Then, for the default options and for all given options with \<^verbatim>\<open>nonull\<close> off,
  filtering twice with the same patterns gives what filtering once gives; an error of the
  first run is the outcome of both sides.
\<close>

theorem match_idempotent:
  assumes H: "\<forall>l p opt. \<not> nonull opt \<longrightarrow> minimatch_match h l p opt = filter (accepts p opt) l"
    and N0: "case opts of None \<Rightarrow> True | Some given \<Rightarrow> \<not> nonull given"
  shows "(case match h L P r opts of Inl e \<Rightarrow> Inl e | Inr R \<Rightarrow> match h R P r opts) = match h L P r opts"
proof -
  let ?o = "case opts of None \<Rightarrow> getDefaultMatchOptions (win32 h) | Some given \<Rightarrow> given"
  have N: "\<not> nonull ?o"
    using N0 by (simp add: getDefaultMatchOptions_def split: option.splits)
  obtain m where m: "pattern_loop h L r ?o Map.empty (patterns_array P) = Inr m"
    using pattern_loop_defined by blast
  show ?thesis
  proof (cases "L \<noteq> [] \<and> m ''hasOwnProperty'' \<noteq> None")
    case True
    then show ?thesis using m by (simp add: match_def match_map_def filter_hasOwnProperty_eq)
  next
    case False
    let ?R = "filter (\<lambda>item. m item \<noteq> None) L"
    have R: "match h L P r opts = Inr ?R"
      using m False by (simp add: match_def match_map_def filter_hasOwnProperty_eq)
    obtain m2 where m2: "pattern_loop h ?R r ?o Map.empty (patterns_array P) = Inr m2"
      using pattern_loop_defined by blast
    have same: "m2 x = m x" if "x \<in> set ?R" for x
      using pattern_loop_local [OF H N m2 m, of x] that by simp
    have keep: "filter (\<lambda>item. m2 item \<noteq> None) ?R = ?R"
      by (rule filter_True) (use same in auto)
    have no_throw: "\<not> (?R \<noteq> [] \<and> m2 ''hasOwnProperty'' \<noteq> None)"
    proof
      assume a: "?R \<noteq> [] \<and> m2 ''hasOwnProperty'' \<noteq> None"
      then have "''hasOwnProperty'' \<in> dom m2" by auto
      then have "''hasOwnProperty'' \<in> set ?R"
        using pattern_loop_dom [OF H N m2] by auto
      then have "L \<noteq> [] \<and> m ''hasOwnProperty'' \<noteq> None" by auto
      with False show False by blast
    qed
    have "match h ?R P r opts = Inr ?R"
      using m2 no_throw keep by (simp add: match_def match_map_def filter_hasOwnProperty_eq)
    with R show ?thesis by simp
  qed
qed

theorem match_idempotent_witness:
  "(\<forall>l p opt. minimatch_match posix_host l p opt = filter (\<lambda>f. f = p) l) \<and>
   \<not> nonull (getDefaultMatchOptions (win32 posix_host)) \<and>
   match posix_host [''b'', ''a'', ''c''] (Patterns [''c'', '' a '', ''c'', ''!b'']) None None = Inr [''a'', ''c''] \<and>
   match posix_host [''a'', ''c''] (Patterns [''c'', '' a '', ''c'', ''!b'']) None None = Inr [''a'', ''c'']"
proof -
  have H: "\<forall>l p opt. \<not> nonull opt \<longrightarrow>
      minimatch_match posix_host l p opt = filter ((\<lambda>p opt f. f = p) p opt) l"
    by (simp add: posix_host_def literal_match_def)
  have H': "\<forall>l p opt. minimatch_match posix_host l p opt = filter (\<lambda>f. f = p) l"
    by (simp add: posix_host_def literal_match_def)
  have N: "case None :: MatchOptions option of None \<Rightarrow> True | Some given \<Rightarrow> \<not> nonull given"
    by simp
  have m: "match posix_host [''b'', ''a'', ''c''] (Patterns [''c'', '' a '', ''c'', ''!b'']) None None = Inr [''a'', ''c'']"
    by (simp add: getDefaultMatchOptions_def prepare_pattern_def Let_def js_trim_def js_whitespace_def
        strip_negation_def isIncludePattern_def startsWith_def match_def match_map_def
        patterns_array_def posix_host_def literal_match_def root_pattern_def
        obj_set_def obj_delete_def call_hasOwnProperty_def)
  from match_idempotent [OF H N, where L = "[''b'', ''a'', ''c'']"
      and P = "Patterns [''c'', '' a '', ''c'', ''!b'']" and r = None] m H'
  show ?thesis by (simp add: getDefaultMatchOptions_def)
qed

lemma js_trim_foo [simp]:
  "js_trim ''foo'' = ''foo''" "js_trim ''!foo'' = ''!foo''" "js_trim ''!!foo'' = ''!!foo''"
  by (simp_all add: js_trim_def js_whitespace_def)

text \<open>
  C5. With negation enabled, a pattern that is not skipped is an include pattern when it has no
  leading \<^verbatim>\<open>!\<close> at all, whatever \<^verbatim>\<open>flipNegate\<close> says; with leading \<^verbatim>\<open>!\<close> it is an
  include pattern exactly when their count is even and \<^verbatim>\<open>flipNegate\<close> is off, or odd and
  \<^verbatim>\<open>flipNegate\<close> is on. With \<^verbatim>\<open>flipNegate\<close> off, \<^verbatim>\<open>!!foo\<close> is prepared exactly as
  \<^verbatim>\<open>foo\<close>, an include pattern, and \<^verbatim>\<open>!foo\<close> is an exclude pattern.
\<close>

theorem negation_parity:
  "(\<not> nonegate options \<and> prepare_pattern h options p = Some (isInclude, options', expanded) \<longrightarrow>
      isInclude = (negate_count (js_trim p) = 0 \<or>
                   (even (negate_count (js_trim p)) \<longleftrightarrow> \<not> flipNegate options))) \<and>
   (\<not> nonegate options \<and> \<not> flipNegate options \<longrightarrow>
      prepare_pattern h options ''!!foo'' = prepare_pattern h options ''foo'' \<and>
      map_option fst (prepare_pattern h options ''foo'') = Some True \<and>
      map_option fst (prepare_pattern h options ''!foo'') = Some False)"
proof (intro conjI impI)
  assume a: "\<not> nonegate options \<and> prepare_pattern h options p = Some (isInclude, options', expanded)"
  then have "isInclude = isIncludePattern (negate_count (js_trim p)) options"
    by (auto simp: prepare_pattern_def Let_def strip_negation_def isIncludePattern_def
        split: if_splits)
  then show "isInclude = (negate_count (js_trim p) = 0 \<or>
                   (even (negate_count (js_trim p)) \<longleftrightarrow> \<not> flipNegate options))"
    by (auto simp: isIncludePattern_def even_iff_mod_2_eq_zero odd_iff_mod_2_eq_one)
next
  assume a: "\<not> nonegate options \<and> \<not> flipNegate options"
  then show "prepare_pattern h options ''!!foo'' = prepare_pattern h options ''foo''"
    by (simp add: prepare_pattern_def Let_def strip_negation_def isIncludePattern_def startsWith_def)
  from a show "map_option fst (prepare_pattern h options ''foo'') = Some True"
    by (simp add: prepare_pattern_def Let_def strip_negation_def isIncludePattern_def startsWith_def)
  from a show "map_option fst (prepare_pattern h options ''!foo'') = Some False"
    by (simp add: prepare_pattern_def Let_def strip_negation_def isIncludePattern_def startsWith_def)
qed

theorem negation_parity_witness:
  "\<not> nonegate flipped_options \<and>
   prepare_pattern posix_host flipped_options ''!foo'' =
     Some (True, flipped_options\<lparr>nocomment := True, nonegate := True, flipNegate := False\<rparr>, [''foo'']) \<and>
   negate_count (js_trim ''!foo'') = 1 \<and>
   \<not> nonegate (getDefaultMatchOptions False) \<and> \<not> flipNegate (getDefaultMatchOptions False) \<and>
   prepare_pattern posix_host (getDefaultMatchOptions False) ''!!foo'' =
     prepare_pattern posix_host (getDefaultMatchOptions False) ''foo'' \<and>
   map_option fst (prepare_pattern posix_host (getDefaultMatchOptions False) ''foo'') = Some True \<and>
   map_option fst (prepare_pattern posix_host (getDefaultMatchOptions False) ''!foo'') = Some False"
  using negation_parity [of flipped_options posix_host "''!foo''" True
          "flipped_options\<lparr>nocomment := True, nonegate := True, flipNegate := False\<rparr>" "[''foo'']"]
        negation_parity [of "getDefaultMatchOptions False" posix_host "''foo''" True
          "getDefaultMatchOptions False" "[]"]
  by (simp add: flipped_options_def getDefaultMatchOptions_def prepare_pattern_def Let_def
        strip_negation_def isIncludePattern_def startsWith_def)

text \<open>
  With \<^verbatim>\<open>flipNegate\<close> on, the pattern \<^verbatim>\<open>foo\<close>, which has an even count of leading
  \<^verbatim>\<open>!\<close>, namely none, is still an include pattern: it selects the path \<^verbatim>\<open>foo\<close>.
\<close>

theorem flipNegate_plain_pattern_counterexample:
  "flipNegate flipped_options \<and> \<not> nonegate flipped_options \<and> negate_count ''foo'' = 0 \<and>
   map_option fst (prepare_pattern posix_host flipped_options ''foo'') = Some True \<and>
   match posix_host [''foo''] (OnePattern ''foo'') None (Some flipped_options) = Inr [''foo'']"
  by (simp add: flipped_options_def getDefaultMatchOptions_def prepare_pattern_def Let_def
        strip_negation_def isIncludePattern_def startsWith_def match_def match_map_def
        patterns_array_def posix_host_def literal_match_def root_pattern_def
        obj_set_def call_hasOwnProperty_def)

section \<open>Properties of the tree walker\<close>

lemma push_children_eq:
  "i \<le> length childItems \<Longrightarrow> push_children stack childItems i = stack @ rev (take i childItems)"
proof (induction i arbitrary: stack)
  case 0
  show ?case by simp
next
  case (Suc i)
  then have "take (Suc i) childItems = take i childItems @ [childItems ! i]"
    by (simp add: take_Suc_conv_app_nth)
  with Suc show ?case by simp
qed

lemma find_loop_Nil: "find_loop h fs [] result = Some (Inr result)"
  by (subst find_loop.simps) simp

lemma find_loop_pop:
  "find_loop h fs (stack @ [item]) result =
     (case lstatSync fs (path item) of
        Inl err \<Rightarrow> Some (Inl err)
      | Inr stats \<Rightarrow>
          if isDirectory stats then
            (case readdirSync fs (path item) of
               Inl err \<Rightarrow> Some (Inl err)
             | Inr names \<Rightarrow>
                 find_loop h fs
                   (stack @ rev (map (\<lambda>childName. FindItem (path_join h (path item) childName)
                                                     (level item + 1)) names))
                   (result @ [path item]))
          else find_loop h fs stack (result @ [path item]))"
  by (subst find_loop.simps) (simp add: push_children_eq split: sum.splits)

lemma find_loop_entries:
  assumes step: "\<And>entry stack l result. entry \<in> set entries \<Longrightarrow>
       tree_at h fs (path_join h p (fst entry)) (snd entry) \<Longrightarrow>
       find_loop h fs (stack @ [FindItem (path_join h p (fst entry)) l]) result =
       find_loop h fs stack (result @ preorder h (path_join h p (fst entry)) (snd entry))"
    and all: "list_all (\<lambda>entry. tree_at h fs (path_join h p (fst entry)) (snd entry)) entries"
  shows "find_loop h fs
           (stack @ rev (map (\<lambda>childName. FindItem (path_join h p childName) l) (map fst entries)))
           result =
         find_loop h fs stack
           (result @ concat (map (\<lambda>entry. preorder h (path_join h p (fst entry)) (snd entry)) entries))"
  using assms
proof (induction entries arbitrary: result)
  case Nil
  show ?case by simp
next
  case (Cons e es)
  have e: "tree_at h fs (path_join h p (fst e)) (snd e)"
    using Cons.prems(2) by simp
  have es: "list_all (\<lambda>entry. tree_at h fs (path_join h p (fst entry)) (snd entry)) es"
    using Cons.prems(2) by simp
  have "find_loop h fs
           (stack @ rev (map (\<lambda>childName. FindItem (path_join h p childName) l) (map fst (e # es))))
           result =
        find_loop h fs
           ((stack @ rev (map (\<lambda>childName. FindItem (path_join h p childName) l) (map fst es))) @
            [FindItem (path_join h p (fst e)) l])
           result"
    by simp
  also have "\<dots> = find_loop h fs
           (stack @ rev (map (\<lambda>childName. FindItem (path_join h p childName) l) (map fst es)))
           (result @ preorder h (path_join h p (fst e)) (snd e))"
    using e by (intro Cons.prems(1)) simp_all
  also have "\<dots> = find_loop h fs stack
           ((result @ preorder h (path_join h p (fst e)) (snd e)) @
            concat (map (\<lambda>entry. preorder h (path_join h p (fst entry)) (snd entry)) es))"
    using Cons.IH [OF _ es] Cons.prems(1) by simp
  finally show ?case by simp
qed

lemma find_loop_tree:
  "tree_at h fs p t \<Longrightarrow>
   find_loop h fs (stack @ [FindItem p l]) result = find_loop h fs stack (result @ preorder h p t)"
proof (induction h fs p t arbitrary: stack l result rule: tree_at.induct)
  case (1 h fs p)
  then show ?case by (simp add: find_loop_pop isDirectory_def)
next
  case (2 h fs p)
  then show ?case by (simp add: find_loop_pop isDirectory_def)
next
  case (3 h fs p entries)
  have d: "lstatSync fs p = Inr Directory" and r: "readdirSync fs p = Inr (map fst entries)"
    and all: "list_all (\<lambda>entry. tree_at h fs (path_join h p (fst entry)) (snd entry)) entries"
    using "3.prems" by simp_all
  have "find_loop h fs (stack @ [FindItem p l]) result =
        find_loop h fs
          (stack @ rev (map (\<lambda>childName. FindItem (path_join h p childName) (l + 1)) (map fst entries)))
          (result @ [p])"
    using d r by (simp add: find_loop_pop isDirectory_def)
  also have "\<dots> = find_loop h fs stack
          ((result @ [p]) @
           concat (map (\<lambda>entry. preorder h (path_join h p (fst entry)) (snd entry)) entries))"
    by (rule find_loop_entries [OF _ all]) (rule "3.IH")
  finally show ?case by simp
next
  case (4 h fs p)
  then show ?case by (simp add: find_loop_pop isDirectory_def)
qed

lemma preorder_length: "length (preorder h p t) = tree_size t"
proof (induction h p t rule: preorder.induct)
  case (3 h p entries)
  then have "sum_list (map (\<lambda>entry. length (preorder h (path_join h p (fst entry)) (snd entry))) entries) =
             sum_list (map (\<lambda>entry. tree_size (snd entry)) entries)"
    by (induction entries) auto
  then show ?case by (simp add: length_concat comp_def)
qed simp_all

lemma preorder_under:
  "\<forall>a n. path_join h a n = a @ ''/'' @ n \<Longrightarrow> x \<in> set (preorder h q t) \<Longrightarrow>
   x = q \<or> prefix (q @ ''/'') x"
proof (induction h q t arbitrary: x rule: preorder.induct)
  case (3 h q entries)
  note J = "3.prems"(1)
  show ?case
  proof (cases "x = q")
    case False
    with "3.prems"(2) obtain e where e: "e \<in> set entries"
      and x: "x \<in> set (preorder h (path_join h q (fst e)) (snd e))"
      by auto
    have j: "path_join h q (fst e) = q @ ''/'' @ fst e" using J by simp
    from "3.IH" [OF e J x] have "x = q @ ''/'' @ fst e \<or> prefix ((q @ ''/'' @ fst e) @ ''/'') x"
      unfolding j .
    then show ?thesis
    proof
      assume "x = q @ ''/'' @ fst e"
      then have "prefix (q @ ''/'') x" by (simp add: prefix_def)
      then show ?thesis ..
    next
      assume "prefix ((q @ ''/'' @ fst e) @ ''/'') x"
      then obtain zs where "x = ((q @ ''/'' @ fst e) @ ''/'') @ zs" by (auto simp: prefix_def)
      then have "x = (q @ ''/'') @ (fst e @ ''/'' @ zs)" by simp
      then have "prefix (q @ ''/'') x" unfolding prefix_def by blast
      then show ?thesis ..
    qed
  qed simp
qed simp_all

lemma name_unique:
  assumes "CHR ''/'' \<notin> set n" "CHR ''/'' \<notin> set n'"
    and "s = [] \<or> hd s = CHR ''/''" "s' = [] \<or> hd s' = CHR ''/''"
    and "n @ s = n' @ s'"
  shows "n = n'"
proof -
  have t: "takeWhile (\<lambda>c. c \<noteq> CHR ''/'') (m @ u) = m"
    if "CHR ''/'' \<notin> set m" "u = [] \<or> hd u = CHR ''/''" for m u
  proof -
    have "takeWhile (\<lambda>c. c \<noteq> CHR ''/'') u = []"
      using that(2) by (cases u) auto
    moreover have "takeWhile (\<lambda>c. c \<noteq> CHR ''/'') (m @ u) = m @ takeWhile (\<lambda>c. c \<noteq> CHR ''/'') u"
      using that(1) by (intro takeWhile_append2) auto
    ultimately show ?thesis by simp
  qed
  have "n = takeWhile (\<lambda>c. c \<noteq> CHR ''/'') (n @ s)" using t assms(1,3) by simp
  also have "\<dots> = takeWhile (\<lambda>c. c \<noteq> CHR ''/'') (n' @ s')" using assms(5) by simp
  also have "\<dots> = n'" using t assms(2,4) by simp
  finally show ?thesis .
qed

lemma under_shape:
  assumes "x = q @ ''/'' @ n \<or> prefix ((q @ ''/'' @ n) @ ''/'') x"
  shows "\<exists>s. x = q @ ''/'' @ n @ s \<and> (s = [] \<or> hd s = CHR ''/'')"
  using assms
proof
  assume "x = q @ ''/'' @ n"
  then have "x = q @ ''/'' @ n @ [] \<and> ([] = [] \<or> hd [] = CHR ''/'')" by simp
  then show ?thesis by blast
next
  assume "prefix ((q @ ''/'' @ n) @ ''/'') x"
  then obtain zs where "x = ((q @ ''/'' @ n) @ ''/'') @ zs" by (auto simp: prefix_def)
  then have "x = q @ ''/'' @ n @ (''/'' @ zs) \<and> hd (''/'' @ zs) = CHR ''/''" by simp
  then show ?thesis by blast
qed

lemma siblings_disjoint:
  assumes J: "\<forall>a n. path_join h a n = a @ ''/'' @ n"
    and "CHR ''/'' \<notin> set n" "CHR ''/'' \<notin> set n'" "n \<noteq> n'"
  shows "set (preorder h (path_join h q n) c) \<inter> set (preorder h (path_join h q n') c') = {}"
proof (rule ccontr)
  assume "\<not> ?thesis"
  then obtain x where x: "x \<in> set (preorder h (path_join h q n) c)"
    and x': "x \<in> set (preorder h (path_join h q n') c')" by auto
  have j: "path_join h q n = q @ ''/'' @ n" "path_join h q n' = q @ ''/'' @ n'"
    using J by simp_all
  from preorder_under [OF J x] have "x = q @ ''/'' @ n \<or> prefix ((q @ ''/'' @ n) @ ''/'') x"
    unfolding j .
  then obtain s where s: "x = q @ ''/'' @ n @ s" "s = [] \<or> hd s = CHR ''/''"
    using under_shape by blast
  from preorder_under [OF J x'] have "x = q @ ''/'' @ n' \<or> prefix ((q @ ''/'' @ n') @ ''/'') x"
    unfolding j .
  then obtain s' where s': "x = q @ ''/'' @ n' @ s'" "s' = [] \<or> hd s' = CHR ''/''"
    using under_shape by blast
  from s(1) s'(1) have "n @ s = n' @ s'" by simp
  from name_unique [OF assms(2,3) s(2) s'(2) this] assms(4) show False by simp
qed

lemma distinct_concat_map:
  assumes "distinct (map g es)"
    and "\<And>e. e \<in> set es \<Longrightarrow> distinct (f e)"
    and "\<And>e e'. e \<in> set es \<Longrightarrow> e' \<in> set es \<Longrightarrow> g e \<noteq> g e' \<Longrightarrow> set (f e) \<inter> set (f e') = {}"
  shows "distinct (concat (map f es))"
  using assms
proof (induction es)
  case Nil
  show ?case by simp
next
  case (Cons e es)
  have "set (f e) \<inter> set (f e') = {}" if "e' \<in> set es" for e'
  proof -
    have "g e \<noteq> g e'" using Cons.prems(1) that by auto
    then show ?thesis using Cons.prems(3) [of e e'] that by simp
  qed
  moreover have "distinct (concat (map f es))"
    using Cons by simp
  ultimately show ?case using Cons.prems(2) by auto
qed

lemma preorder_distinct:
  "\<forall>a n. path_join h a n = a @ ''/'' @ n \<Longrightarrow> well_named t \<Longrightarrow> distinct (preorder h q t)"
proof (induction h q t rule: preorder.induct)
  case (3 h q entries)
  note J = "3.prems"(1)
  have wn: "distinct (map fst entries)"
    and each: "\<And>e. e \<in> set entries \<Longrightarrow> CHR ''/'' \<notin> set (fst e) \<and> well_named (snd e)"
    using "3.prems"(2) by (auto simp: list_all_iff)
  have "distinct (concat (map (\<lambda>entry. preorder h (path_join h q (fst entry)) (snd entry)) entries))"
  proof (rule distinct_concat_map [where g = fst])
    show "distinct (map fst entries)" by (rule wn)
  next
    fix e assume "e \<in> set entries"
    then show "distinct (preorder h (path_join h q (fst e)) (snd e))"
      using "3.IH" J each by blast
  next
    fix e e' assume "e \<in> set entries" "e' \<in> set entries" "fst e \<noteq> fst e'"
    then show "set (preorder h (path_join h q (fst e)) (snd e)) \<inter>
               set (preorder h (path_join h q (fst e')) (snd e')) = {}"
      using siblings_disjoint [OF J] each by blast
  qed
  moreover have "q \<notin> set (concat (map (\<lambda>entry. preorder h (path_join h q (fst entry)) (snd entry)) entries))"
  proof
    assume "q \<in> set (concat (map (\<lambda>entry. preorder h (path_join h q (fst entry)) (snd entry)) entries))"
    then obtain e where "q \<in> set (preorder h (path_join h q (fst e)) (snd e))" by auto
    from preorder_under [OF J this] have "q = path_join h q (fst e) \<or> prefix (path_join h q (fst e) @ ''/'') q" .
    moreover have "path_join h q (fst e) = q @ ''/'' @ fst e" using J by simp
    ultimately have "q = q @ ''/'' @ fst e \<or> prefix ((q @ ''/'' @ fst e) @ ''/'') q" by simp
    then show False
    proof
      assume "q = q @ ''/'' @ fst e"
      then have "length q = length (q @ ''/'' @ fst e)" by simp
      then show False by simp
    next
      assume "prefix ((q @ ''/'' @ fst e) @ ''/'') q"
      then have "length ((q @ ''/'' @ fst e) @ ''/'') \<le> length q" by (rule prefix_length_le)
      then show False by simp
    qed
  qed
  ultimately show ?case by simp
qed simp_all

text \<open>
  C3. When the file system shows a finite directory tree at the normalized path, the walk
  ends and returns the preorder listing of the tree: the root path first, one element for
  every node of the tree, every directory before its entries, and the entries in the order
  of the directory listing. When \<^verbatim>\<open>path.join\<close> puts a slash between directory and name
  and the tree is well named, no path occurs twice in the listing.
\<close>

theorem find_preorder:
  assumes "findPath \<noteq> []" and "tree_at h fs (path_normalize h findPath) t"
  shows "find_js h fs findPath = Some (Inr (preorder h (path_normalize h findPath) t)) \<and>
         hd (preorder h (path_normalize h findPath) t) = path_normalize h findPath \<and>
         length (preorder h (path_normalize h findPath) t) = tree_size t \<and>
         ((\<forall>a n. path_join h a n = a @ ''/'' @ n) \<and> well_named t \<longrightarrow>
            distinct (preorder h (path_normalize h findPath) t))"
proof -
  let ?p = "path_normalize h findPath"
  have "find_loop h fs ([] @ [FindItem ?p 1]) [] = find_loop h fs [] ([] @ preorder h ?p t)"
    using assms(2) by (rule find_loop_tree)
  then have loop: "find_loop h fs [FindItem ?p 1] [] = Some (Inr (preorder h ?p t))"
    by (simp add: find_loop_Nil)
  obtain st where st: "lstatSync fs ?p = Inr st"
    using assms(2) by (cases t) auto
  have first: "hd (preorder h ?p t) = ?p" by (cases t) auto
  have "find_js h fs findPath = Some (Inr (preorder h ?p t))"
    using assms(1) st loop by (simp add: find_js_def)
  with first preorder_length [of h ?p t] preorder_distinct [of h t ?p] show ?thesis
    by blast
qed

theorem find_preorder_witness:
  "''root'' \<noteq> [] \<and> tree_at posix_host example_fs (path_normalize posix_host ''root'') example_tree \<and>
   (\<forall>a n. path_join posix_host a n = a @ ''/'' @ n) \<and> well_named example_tree \<and>
   find_js posix_host example_fs ''root'' =
     Some (Inr [''root'', ''root/sub'', ''root/sub/f3.txt'', ''root/f1.txt'', ''root/f2.log'', ''root/lnk''])"
  using find_preorder [of "''root''" posix_host example_fs example_tree]
  by (simp add: posix_host_def example_fs_def example_tree_def)

text \<open>
  C4. When \<^verbatim>\<open>lstatSync\<close> of the normalized path fails with the code \<^verbatim>\<open>ENOENT\<close>, the
  result is the empty list and nothing is thrown.
\<close>

theorem find_missing_path:
  assumes "lstatSync fs (path_normalize h findPath) = Inl err" and "err_code err = Some ''ENOENT''"
  shows "find_js h fs findPath = Some (Inr [])"
  using assms by (simp add: find_js_def)

theorem find_missing_path_witness:
  "lstatSync empty_fs (path_normalize posix_host ''nowhere'') = Inl (enoent ''lstat'' ''nowhere'') \<and>
   err_code (enoent ''lstat'' ''nowhere'') = Some ''ENOENT'' \<and>
   find_js posix_host empty_fs ''nowhere'' = Some (Inr [])"
  using find_missing_path [of empty_fs posix_host "''nowhere''" "enoent ''lstat'' ''nowhere''"]
  by (simp add: empty_fs_def posix_host_def enoent_def fs_error_def)

text \<open>
  C10. For the empty path the result is the empty list, whatever the file system would
  answer: it is not asked.
\<close>

theorem find_empty_path: "find_js h fs [] = Some (Inr [])"
  by (simp add: find_js_def)

lemma find_loop_agree:
  assumes l: "lstatSync fs' = lstatSync fs"
    and r: "\<forall>p. lstatSync fs p = Inr Directory \<longrightarrow> readdirSync fs' p = readdirSync fs p"
    and run: "find_loop h fs stack result = Some y"
  shows "find_loop h fs' stack result = Some y"
proof -
  have "fs0 = fs \<longrightarrow> find_loop h0 fs' stack0 result0 = Some y0"
    if run0: "find_loop h0 fs0 stack0 result0 = Some y0" for h0 fs0 stack0 result0 y0
  proof (rule find_loop.raw_induct
      [where P = "\<lambda>h0 fs0 stack0 result0 y0. fs0 = fs \<longrightarrow> find_loop h0 fs' stack0 result0 = Some y0",
       OF _ run0])
    fix f h1 fs1 stack1 result1 y1
    assume IH: "\<And>h2 fs2 stack2 result2 y2. f h2 fs2 stack2 result2 = Some y2 \<Longrightarrow>
                  fs2 = fs \<longrightarrow> find_loop h2 fs' stack2 result2 = Some y2"
      and body: "(if stack1 = [] then Some (Inr result1)
          else case lstatSync fs1 (path (last stack1)) of
            Inl err \<Rightarrow> Some (Inl err)
          | Inr stats \<Rightarrow>
              if isDirectory stats then
                (case readdirSync fs1 (path (last stack1)) of
                   Inl err \<Rightarrow> Some (Inl err)
                 | Inr names \<Rightarrow>
                     f h1 fs1
                       (push_children (butlast stack1)
                          (map (\<lambda>childName.
                                  FindItem (path_join h1 (path (last stack1)) childName)
                                           (level (last stack1) + 1)) names)
                          (length names))
                       (result1 @ [path (last stack1)]))
              else f h1 fs1 (butlast stack1) (result1 @ [path (last stack1)])) = Some y1"
    show "fs1 = fs \<longrightarrow> find_loop h1 fs' stack1 result1 = Some y1"
    proof
      assume eq: "fs1 = fs"
      show "find_loop h1 fs' stack1 result1 = Some y1"
        using body r IH unfolding eq
        by (subst find_loop.simps)
           (auto simp: l isDirectory_def split: if_splits sum.splits)
    qed
  qed
  with run show ?thesis by blast
qed

text \<open>
  C6. The walk depends on \<^verbatim>\<open>lstatSync\<close> and on the listings of the paths that
  \<^verbatim>\<open>lstatSync\<close> reports as directories, and on nothing else: two file systems that agree
  on these give the same result, whatever \<^verbatim>\<open>statSync\<close> says of the target of a link and
  whatever a listing through a link would hold. A popped entry that is a symbolic link is
  added to the result and nothing is pushed for it.
\<close>

theorem find_never_follows_links:
  assumes "lstatSync fs' = lstatSync fs"
    and "\<forall>p. lstatSync fs p = Inr Directory \<longrightarrow> readdirSync fs' p = readdirSync fs p"
  shows "find_js h fs' findPath = find_js h fs findPath \<and>
         (lstatSync fs (path item) = Inr SymbolicLink \<longrightarrow>
            find_loop h fs (stack @ [item]) result = find_loop h fs stack (result @ [path item]))"
proof -
  have r': "\<forall>p. lstatSync fs' p = Inr Directory \<longrightarrow> readdirSync fs p = readdirSync fs' p"
    using assms by simp
  have eq: "find_loop h fs' stack0 result0 = find_loop h fs stack0 result0" for stack0 result0
  proof (cases "find_loop h fs stack0 result0")
    case (Some y)
    then show ?thesis using find_loop_agree [OF assms] by simp
  next
    case None
    show ?thesis
    proof (cases "find_loop h fs' stack0 result0")
      case None
      with \<open>find_loop h fs stack0 result0 = None\<close> show ?thesis by simp
    next
      case (Some y)
      then have "find_loop h fs stack0 result0 = Some y"
        using find_loop_agree [OF assms(1) [symmetric] r'] by simp
      with None show ?thesis by simp
    qed
  qed
  have "find_js h fs' findPath = find_js h fs findPath"
    unfolding find_js_def eq assms(1) by (rule refl)
  moreover have "lstatSync fs (path item) = Inr SymbolicLink \<longrightarrow>
            find_loop h fs (stack @ [item]) result = find_loop h fs stack (result @ [path item])"
    by (simp add: find_loop_pop isDirectory_def)
  ultimately show ?thesis by simp
qed

theorem find_never_follows_links_witness:
  "lstatSync example_fs ''root/lnk'' = Inr SymbolicLink \<and>
   statSync example_fs ''root/lnk'' = Inr Directory \<and>
   readdirSync example_fs ''root/lnk'' = Inr [''f3.txt''] \<and>
   readdirSync example_fs_closed ''root/lnk'' = Inl (eacces ''scandir'' ''root/lnk'') \<and>
   find_js posix_host example_fs_closed ''root'' = find_js posix_host example_fs ''root'' \<and>
   find_loop posix_host example_fs [FindItem ''root/lnk'' 2] [''root''] =
     find_loop posix_host example_fs [] [''root'', ''root/lnk'']"
proof -
  have same_lstat: "lstatSync example_fs_closed = lstatSync example_fs"
    by (simp add: example_fs_closed_def)
  have same_listing: "\<forall>p. lstatSync example_fs p = Inr Directory \<longrightarrow>
      readdirSync example_fs_closed p = readdirSync example_fs p"
    by (simp add: example_fs_closed_def example_fs_def)
  from find_never_follows_links [OF same_lstat same_listing, where h = posix_host
      and findPath = "''root''" and item = "FindItem ''root/lnk'' 2" and stack = "[]"
      and result = "[''root'']"]
  show ?thesis
    by (simp add: example_fs_closed_def example_fs_def)
qed

lemma find_loop_step:
  "stack \<noteq> [] \<Longrightarrow>
   find_loop h fs stack result =
     (case find_step h fs stack result of
        Inl err \<Rightarrow> Some (Inl err)
      | Inr (stack', result') \<Rightarrow> find_loop h fs stack' result')"
  by (subst find_loop.simps) (simp add: find_step_def split: sum.splits)

lemma walk_reaches_find_loop:
  "walk_reaches h fs s s' \<Longrightarrow> find_loop h fs (fst s) (snd s) = find_loop h fs (fst s') (snd s')"
proof (induction rule: walk_reaches.induct)
  case (here h fs s)
  show ?case by simp
next
  case (round stack h fs result s' s'')
  then show ?case by (auto simp: find_loop_step split: prod.splits)
qed

lemma find_step_error:
  "find_step h fs stack result = Inl err \<longleftrightarrow>
     lstatSync fs (path (last stack)) = Inl err \<or>
     (lstatSync fs (path (last stack)) = Inr Directory \<and> readdirSync fs (path (last stack)) = Inl err)"
  by (auto simp: find_step_def isDirectory_def split: sum.splits if_splits)

lemma sublist_prepend: "sublist xs ys \<Longrightarrow> sublist xs (ps @ ys)"
proof -
  assume "sublist xs ys"
  then obtain a b where "ys = a @ xs @ b" by (auto simp: sublist_def)
  then have "ps @ ys = (ps @ a) @ xs @ b" by simp
  then show ?thesis unfolding sublist_def by blast
qed

lemma fs_error_names_path: "sublist p (err_message (fs_error code description syscall p))"
proof -
  have "err_message (fs_error code description syscall p) =
        (code @ '': '' @ description @ '', '' @ syscall @ '' '' @ [CHR 0x27]) @ p @ [CHR 0x27]"
    by (simp add: fs_error_def)
  then show ?thesis by (simp only: sublist_appendI)
qed

text \<open>
  C7. Once the first \<^verbatim>\<open>lstatSync\<close> has succeeded, let the walk come, after any number of
  rounds, to an entry on top of the stack for which \<^verbatim>\<open>lstatSync\<close> throws, or which is a
  directory for which \<^verbatim>\<open>readdirSync\<close> throws. Then \<^verbatim>\<open>find\<close> returns no paths at all: it
  throws a new \<^verbatim>\<open>Error\<close> whose message is \<^verbatim>\<open>Failed find: \<close> followed by the message of that
  error. When that message names the path of the entry, as the messages of \<^verbatim>\<open>fs\<close> do, the
  error thrown names it too.
\<close>

theorem find_wraps_loop_errors:
  assumes "findPath \<noteq> []"
    and "lstatSync fs (path_normalize h findPath) = Inr st"
    and "walk_reaches h fs ([FindItem (path_normalize h findPath) 1], []) (stack, result)"
    and "stack \<noteq> []"
    and "lstatSync fs (path (last stack)) = Inl err \<or>
         (lstatSync fs (path (last stack)) = Inr Directory \<and>
          readdirSync fs (path (last stack)) = Inl err)"
  shows "find_js h fs findPath =
           Some (Inl (JsError ''Error'' (''Failed find: '' @ err_message err) None None)) \<and>
         (sublist (path (last stack)) (err_message err) \<longrightarrow>
            carries_path (JsError ''Error'' (''Failed find: '' @ err_message err) None None)
              (path (last stack)))"
proof -
  have "find_step h fs stack result = Inl err"
    using assms(5) by (simp add: find_step_error)
  then have "find_loop h fs stack result = Some (Inl err)"
    using assms(4) by (simp add: find_loop_step)
  moreover have "find_loop h fs [FindItem (path_normalize h findPath) 1] [] =
                 find_loop h fs stack result"
    using walk_reaches_find_loop [OF assms(3)] by simp
  ultimately have "find_js h fs findPath =
      Some (Inl (JsError ''Error'' (''Failed find: '' @ err_message err) None None))"
    using assms(1,2) by (simp add: find_js_def new_Error_def)
  moreover have "carries_path (JsError ''Error'' (''Failed find: '' @ err_message err) None None)
      (path (last stack))" if "sublist (path (last stack)) (err_message err)"
  proof -
    from that have "sublist (path (last stack)) (''Failed find: '' @ err_message err)"
      by (rule sublist_prepend)
    then show ?thesis by (simp add: carries_path_def)
  qed
  ultimately show ?thesis by blast
qed

theorem find_wraps_loop_errors_witness:
  "walk_reaches posix_host locked_fs ([FindItem ''root'' 1], [])
     ([FindItem ''root/locked'' 2], [''root'', ''root/a'']) \<and>
   lstatSync locked_fs ''root/locked'' = Inr Directory \<and>
   readdirSync locked_fs ''root/locked'' = Inl (eacces ''scandir'' ''root/locked'') \<and>
   sublist ''root/locked'' (err_message (eacces ''scandir'' ''root/locked'')) \<and>
   find_js posix_host locked_fs ''root'' =
     Some (Inl (JsError ''Error''
       (''Failed find: '' @ err_message (eacces ''scandir'' ''root/locked'')) None None)) \<and>
   carries_path
     (JsError ''Error'' (''Failed find: '' @ err_message (eacces ''scandir'' ''root/locked'')) None None)
     ''root/locked''"
proof -
  have s1: "find_step posix_host locked_fs [FindItem ''root'' 1] [] =
            Inr ([FindItem ''root/locked'' 2, FindItem ''root/a'' 2], [''root''])"
    by (simp add: find_step_def locked_fs_def posix_host_def isDirectory_def)
  have s2: "find_step posix_host locked_fs [FindItem ''root/locked'' 2, FindItem ''root/a'' 2] [''root''] =
            Inr ([FindItem ''root/locked'' 2], [''root'', ''root/a''])"
    by (simp add: find_step_def locked_fs_def isDirectory_def)
  have reach: "walk_reaches posix_host locked_fs ([FindItem ''root'' 1], [])
     ([FindItem ''root/locked'' 2], [''root'', ''root/a''])"
    by (rule walk_reaches.round [OF _ s1], simp,
        rule walk_reaches.round [OF _ s2], simp, rule walk_reaches.here)
  have names: "sublist ''root/locked'' (err_message (eacces ''scandir'' ''root/locked''))"
    unfolding eacces_def by (rule fs_error_names_path)
  have root: "lstatSync locked_fs (path_normalize posix_host ''root'') = Inr Directory"
    by (simp add: locked_fs_def posix_host_def)
  have fails: "lstatSync locked_fs (path (last [FindItem ''root/locked'' 2])) =
                 Inl (eacces ''scandir'' ''root/locked'') \<or>
               (lstatSync locked_fs (path (last [FindItem ''root/locked'' 2])) = Inr Directory \<and>
                readdirSync locked_fs (path (last [FindItem ''root/locked'' 2])) =
                  Inl (eacces ''scandir'' ''root/locked''))"
    by (simp add: locked_fs_def)
  have start: "walk_reaches posix_host locked_fs
      ([FindItem (path_normalize posix_host ''root'') 1], [])
      ([FindItem ''root/locked'' 2], [''root'', ''root/a''])"
    using reach by (simp add: posix_host_def)
  from find_wraps_loop_errors [OF _ root start _ fails] names reach
  show ?thesis by (simp add: locked_fs_def)
qed

end
